theory Spec2Isabelle
  imports Main
begin

section \<open>RepeatedTimerTask (src/raft/repeated_timer_task.cpp)\<close>

text \<open>
  A shallow embedding of \<^verbatim>\<open>raft::RepeatedTimerTask\<close>. The object is a record of its
  members; the part of the process it talks to (the timer subsystem behind
  \<^verbatim>\<open>raft_timer_add\<close> / \<^verbatim>\<open>raft_timer_del\<close>, the bthreads started for a fire, the wall
  clock) extends that record into a \<open>world\<close>. Every member access of the source
  happens with \<^verbatim>\<open>_mutex\<close> held, so each critical section is one atomic transition of
  the world; the hook a method calls and the bthread it starts, under the mutex or
  after releasing it, touch no member in this model and are part of the same
  transition. Everything observable is appended to a trace.
\<close>

subsection \<open>Data\<close>

text \<open>\<^verbatim>\<open>raft_timer_t\<close> is an integral timer id; \<^verbatim>\<open>raft_timer_t()\<close> is its zero value.\<close>

type_synonym raft_timer_t = nat

definition raft_timer_t :: raft_timer_t where
  "raft_timer_t = 0"

text \<open>
  A call of \<^verbatim>\<open>on_timedout()\<close> in progress. \<open>Background\<close>: it runs on the bthread that
  \<^verbatim>\<open>bthread_start_background\<close> started (line 98). \<open>Inline\<close>: starting the bthread failed
  and \<^verbatim>\<open>run_on_timedout_in_new_thread\<close> was called directly (line 101), on the stack of
  the caller, which returns only after it (see \<open>inline_calls\<close> below). \<open>Dispatched\<close>: the call has not yet taken the mutex. \<open>InRun\<close>: it has set
  \<^verbatim>\<open>_invoking\<close>, released the mutex and is inside \<^verbatim>\<open>run()\<close>.
\<close>

datatype cb_mode = Background | Inline

datatype cb_phase = Dispatched | InRun

text \<open>
  Observable events. \<open>EvUnlock i r\<close> records the values of \<^verbatim>\<open>_invoking\<close> and
  \<^verbatim>\<open>_running\<close> at the release; \<open>EvOnDestroy r\<close> the value of \<^verbatim>\<open>_running\<close> that the hook
  finds when it is called; \<open>EvTimerAdd due rc\<close> and \<open>EvTimerDel id rc\<close> the calls of the
  timer subsystem with their return codes; \<open>EvFire id\<close> the subsystem delivering the
  callback of a registration; \<open>EvBthreadStart rc\<close> the call of
  \<^verbatim>\<open>bthread_start_background\<close>; \<open>EvWrite\<close> one \<^verbatim>\<open>os << ...\<close>.
\<close>

datatype event =
    EvLock
  | EvUnlock bool bool
  | EvRun
  | EvOnDestroy bool
  | EvTimerAdd int int
  | EvTimerDel raft_timer_t int
  | EvFire raft_timer_t
  | EvBthreadStart int
  | EvWrite string

text \<open>The assertions of the file: \<^verbatim>\<open>CHECK(_running)\<close> and \<^verbatim>\<open>CHECK(_stopped)\<close> in the
  methods, \<^verbatim>\<open>CHECK(!_running)\<close> and \<^verbatim>\<open>CHECK(_destroyed)\<close> in the destructor.\<close>

datatype check_failure = CHECK_running | CHECK_stopped | CHECK_not_running | CHECK_destroyed

record RepeatedTimerTask =
  timeout_ms :: int
  stopped :: bool
  running :: bool
  destroyed :: bool
  invoking :: bool
  next_duetime :: int
  timer :: raft_timer_t
  mutex :: bool

record world = RepeatedTimerTask +
  registered :: "(raft_timer_t \<times> int) list"
  next_id :: raft_timer_t
  callbacks :: "(cb_mode \<times> cb_phase) list"
  clock :: int
  trace :: "event list"

subsection \<open>Mutex, hooks and the collaborators\<close>

definition emit :: "event \<Rightarrow> world \<Rightarrow> world" where
  "emit e s = s\<lparr>trace := trace s @ [e]\<rparr>"

text \<open>Taking and releasing \<^verbatim>\<open>_mutex\<close>. A transition starts with the mutex free (see
  \<open>shape\<close> below), so taking it never waits.\<close>

definition lock :: "world \<Rightarrow> world" where
  "lock s = emit EvLock (s\<lparr>mutex := True\<rparr>)"

definition unlock :: "world \<Rightarrow> world" where
  "unlock s = emit (EvUnlock (invoking s) (running s)) (s\<lparr>mutex := False\<rparr>)"

text \<open>
  The destructor of \<^verbatim>\<open>std::unique_lock\<close> / \<^verbatim>\<open>BAIDU_SCOPED_LOCK\<close> at the end of a
  method: it releases the mutex if the lock object still owns it.
\<close>

definition scope_exit :: "world \<Rightarrow> world" where
  "scope_exit s = (if mutex s then unlock s else s)"

text \<open>The virtual hooks \<^verbatim>\<open>run()\<close> and \<^verbatim>\<open>on_destroy()\<close>: the embedder's code, seen as events.\<close>

definition run :: "world \<Rightarrow> world" where
  "run s = emit EvRun s"

definition on_destroy :: "world \<Rightarrow> world" where
  "on_destroy s = emit (EvOnDestroy (running s)) s"

text \<open>
  Modelled from the spec: \<^verbatim>\<open>base::milliseconds_from_now\<close> is not in the repository's
  files; the spec says the due-time is "now + adjusted period". Times are milliseconds.
\<close>

definition milliseconds_from_now :: "int \<Rightarrow> world \<Rightarrow> int" where
  "milliseconds_from_now ms s = clock s + ms"

text \<open>
  Modelled from the spec: the timer subsystem, \<^verbatim>\<open>register(due_time, callback, context)
  -> handle | error\<close> and \<^verbatim>\<open>cancel(handle) -> success | already_fired\<close>, one callback
  per successful registration. \<open>registered\<close> holds the registrations that have neither
  fired nor been cancelled. Whether a registration is accepted is the subsystem's
  choice, the argument \<open>ok\<close>; an accepted one gets a fresh id, written through the
  pointer \<^verbatim>\<open>&_timer\<close>. The return code is 0 for success.
\<close>

definition raft_timer_add :: "bool \<Rightarrow> int \<Rightarrow> world \<Rightarrow> int \<times> world" where
  "raft_timer_add ok due s =
     (if ok
      then (0, emit (EvTimerAdd due 0)
                 (s\<lparr>timer := next_id s,
                    registered := registered s @ [(next_id s, due)],
                    next_id := Suc (next_id s)\<rparr>))
      else (1, emit (EvTimerAdd due 1) s))"

definition raft_timer_del :: "raft_timer_t \<Rightarrow> world \<Rightarrow> int \<times> world" where
  "raft_timer_del t s =
     (if t \<in> set (map fst (registered s))
      then (0, emit (EvTimerDel t 0)
                 (s\<lparr>registered := filter (\<lambda>r. fst r \<noteq> t) (registered s)\<rparr>))
      else (1, emit (EvTimerDel t 1) s))"

subsection \<open>The methods\<close>

text \<open>Lines 12-18: the constructor. \<^verbatim>\<open>_next_duetime\<close> and \<^verbatim>\<open>_timer\<close> are not
  initialised by it; their indeterminate values are the arguments. The rest of the
  world starts empty.\<close>

definition RepeatedTimerTask_new :: "int \<Rightarrow> raft_timer_t \<Rightarrow> world" where
  "RepeatedTimerTask_new d0 t0 =
     \<lparr>timeout_ms = 0, stopped = True, running = False, destroyed = False,
      invoking = False, next_duetime = d0, timer = t0, mutex = False,
      registered = [], next_id = 1, callbacks = [], clock = 0, trace = []\<rparr>"

text \<open>Lines 20-24: the destructor, as the first of its assertions that fails on the
  task, if any.\<close>

definition RepeatedTimerTask_delete :: "world \<Rightarrow> check_failure option" where
  "RepeatedTimerTask_delete s =
     (if running s then Some CHECK_not_running
      else if \<not> destroyed s then Some CHECK_destroyed
      else None)"

text \<open>Lines 26-33. The method returns 0 in every case.\<close>

definition init :: "int \<Rightarrow> world \<Rightarrow> world" where
  "init ms s =
     s\<lparr>timeout_ms := ms, destroyed := False, stopped := True, running := False,
       timer := raft_timer_t\<rparr>"

text \<open>Lines 35-45. \<^verbatim>\<open>RAFT_RETURN_IF(c)\<close> returns from the method when \<open>c\<close> holds.\<close>

definition stop :: "world \<Rightarrow> check_failure + world" where
  "stop s0 =
     (let s = lock s0 in
      if stopped s then Inr (scope_exit s)
      else
        let s1 = s\<lparr>stopped := True\<rparr> in
        if \<not> running s1 then Inl CHECK_running
        else
          case raft_timer_del (timer s1) s1 of (rc, s2) \<Rightarrow>
            if rc = 0 then Inr (scope_exit (s2\<lparr>running := False\<rparr>))
            else Inr (scope_exit s2))"

text \<open>Lines 87-91: the entry of a call of \<^verbatim>\<open>on_timedout()\<close>, which then proceeds on
  its own: here one more call in progress.\<close>

definition run_on_timedout_in_new_thread :: "cb_mode \<Rightarrow> world \<Rightarrow> world" where
  "run_on_timedout_in_new_thread m s = s\<lparr>callbacks := callbacks s @ [(m, Dispatched)]\<rparr>"

text \<open>Lines 93-103: the static \<^verbatim>\<open>on_timedout(void* arg)\<close>. \<open>ok\<close> is whether
  \<^verbatim>\<open>bthread_start_background\<close> succeeds. When it does, the function returns and the
  call of \<^verbatim>\<open>on_timedout()\<close> proceeds on the bthread. When it does not, the function
  enters \<^verbatim>\<open>on_timedout()\<close> itself and returns only after it: the transition ends at
  that entry, and \<open>inline_calls\<close> below continues the call to its return.\<close>

definition on_timedout_arg :: "bool \<Rightarrow> world \<Rightarrow> world" where
  "on_timedout_arg ok s =
     (if ok then run_on_timedout_in_new_thread Background (emit (EvBthreadStart 0) s)
      else run_on_timedout_in_new_thread Inline (emit (EvBthreadStart 1) s))"

text \<open>Lines 105-113. \<open>adjust_timeout_ms\<close> is the virtual hook of that name.\<close>

definition schedule :: "(int \<Rightarrow> int) \<Rightarrow> bool \<Rightarrow> bool \<Rightarrow> world \<Rightarrow> world" where
  "schedule adjust_timeout_ms add_ok bthread_ok s =
     (let s1 = s\<lparr>next_duetime := milliseconds_from_now (adjust_timeout_ms (timeout_ms s)) s\<rparr> in
      case raft_timer_add add_ok (next_duetime s1) s1 of (rc, s2) \<Rightarrow>
        if rc \<noteq> 0 then on_timedout_arg bthread_ok (unlock s2)
        else s2)"

text \<open>Lines 47-64, the member \<^verbatim>\<open>on_timedout()\<close>, in its two critical sections:
  lines 48-52 up to the call of \<^verbatim>\<open>run()\<close>, and lines 53-63 after it has returned.\<close>

definition on_timedout_begin :: "world \<Rightarrow> world" where
  "on_timedout_begin s0 =
     (let s = lock s0;
          s1 = s\<lparr>invoking := True\<rparr>;
          s2 = unlock s1
      in run s2)"

definition on_timedout_end ::
  "(int \<Rightarrow> int) \<Rightarrow> bool \<Rightarrow> bool \<Rightarrow> world \<Rightarrow> check_failure + world" where
  "on_timedout_end adjust_timeout_ms add_ok bthread_ok s0 =
     (let s = lock s0;
          s1 = s\<lparr>invoking := False\<rparr>
      in
      if \<not> running s1 then Inl CHECK_running
      else if stopped s1 then
        (let s2 = (if destroyed s1 then on_destroy s1 else s1) in
         Inr (scope_exit (s2\<lparr>running := False\<rparr>)))
      else Inr (scope_exit (schedule adjust_timeout_ms add_ok bthread_ok s1)))"

text \<open>Lines 66-85.\<close>

definition start :: "(int \<Rightarrow> int) \<Rightarrow> bool \<Rightarrow> bool \<Rightarrow> world \<Rightarrow> world" where
  "start adjust_timeout_ms add_ok bthread_ok s0 =
     (let s = lock s0 in
      if destroyed s then scope_exit s
      else if \<not> stopped s then scope_exit s
      else
        let s1 = s\<lparr>stopped := False\<rparr> in
        if running s1 then scope_exit s1
        else scope_exit (schedule adjust_timeout_ms add_ok bthread_ok (s1\<lparr>running := True\<rparr>)))"

text \<open>Lines 115-124: \<^verbatim>\<open>reset()\<close>.\<close>

definition reset :: "(int \<Rightarrow> int) \<Rightarrow> bool \<Rightarrow> bool \<Rightarrow> world \<Rightarrow> check_failure + world" where
  "reset adjust_timeout_ms add_ok bthread_ok s0 =
     (let s = lock s0 in
      if stopped s then Inr (scope_exit s)
      else if \<not> running s then Inl CHECK_running
      else
        case raft_timer_del (timer s) s of (rc, s1) \<Rightarrow>
          if rc = 0 then Inr (scope_exit (schedule adjust_timeout_ms add_ok bthread_ok s1))
          else Inr (scope_exit s1))"

text \<open>Lines 126-136: \<^verbatim>\<open>reset(int timeout_ms)\<close>.\<close>

definition reset_ms ::
  "(int \<Rightarrow> int) \<Rightarrow> bool \<Rightarrow> bool \<Rightarrow> int \<Rightarrow> world \<Rightarrow> check_failure + world" where
  "reset_ms adjust_timeout_ms add_ok bthread_ok ms s0 =
     (let s = (lock s0)\<lparr>timeout_ms := ms\<rparr> in
      if stopped s then Inr (scope_exit s)
      else if \<not> running s then Inl CHECK_running
      else
        case raft_timer_del (timer s) s of (rc, s1) \<Rightarrow>
          if rc = 0 then Inr (scope_exit (schedule adjust_timeout_ms add_ok bthread_ok s1))
          else Inr (scope_exit s1))"

text \<open>Lines 138-158.\<close>

definition destroy :: "world \<Rightarrow> check_failure + world" where
  "destroy s0 =
     (let s = lock s0 in
      if destroyed s then Inr (scope_exit s)
      else
        let s1 = s\<lparr>destroyed := True\<rparr> in
        if \<not> running s1 then
          (if \<not> stopped s1 then Inl CHECK_stopped
           else Inr (scope_exit (on_destroy (unlock s1))))
        else if stopped s1 then Inr (scope_exit s1)
        else
          let s2 = s1\<lparr>stopped := True\<rparr> in
          case raft_timer_del (timer s2) s2 of (rc, s3) \<Rightarrow>
            if rc = 0 then Inr (scope_exit (on_destroy (unlock (s3\<lparr>running := False\<rparr>))))
            else if \<not> running s3 then Inl CHECK_running
            else Inr (scope_exit s3))"

text \<open>\<^verbatim>\<open>os << n\<close> for an integer: its decimal digits, with a minus sign when negative.\<close>

definition digit_char :: "nat \<Rightarrow> char" where
  "digit_char d = ''0123456789'' ! d"

function show_nat :: "nat \<Rightarrow> string" where
  "show_nat n = (if n < 10 then [digit_char n] else show_nat (n div 10) @ [digit_char (n mod 10)])"
  by pat_completeness auto
termination
  by (relation "measure id") auto

declare show_nat.simps [simp del]

definition show_int :: "int \<Rightarrow> string" where
  "show_int i = (if i < 0 then CHR ''-'' # show_nat (nat (- i)) else show_nat (nat i))"

definition os_write :: "string \<Rightarrow> world \<Rightarrow> world" where
  "os_write str s = emit (EvWrite str) s"

text \<open>
  Modelled from the spec: \<^verbatim>\<open>base::timespec_to_milliseconds\<close> and
  \<^verbatim>\<open>base::gettimeofday_ms\<close> are not in the repository's files. Due-times are kept in
  milliseconds, so the first is the identity; the second reads the clock.
\<close>

definition timespec_to_milliseconds :: "int \<Rightarrow> int" where
  "timespec_to_milliseconds d = d"

definition gettimeofday_ms :: "world \<Rightarrow> int" where
  "gettimeofday_ms s = clock s"

text \<open>Lines 160-186. The stream \<^verbatim>\<open>os\<close> is the sequence of \<open>EvWrite\<close> events;
  \<^verbatim>\<open>use_html\<close> is ignored by the source.\<close>

definition describe :: "world \<Rightarrow> world" where
  "describe s0 =
     (let s = lock s0;
          stopped' = stopped s;
          running' = running s;
          destroyed' = destroyed s;
          invoking' = invoking s;
          duetime = next_duetime s;
          timeout_ms' = timeout_ms s;
          s1 = unlock s;
          s2 = os_write ''ms)'' (os_write (show_int timeout_ms') (os_write ''timeout('' s1));
          s3 = (if destroyed' then os_write '' DESTROYED'' s2 else s2);
          s4 = (if stopped' then os_write '' STOPPED'' s3 else s3)
      in
      if running' then
        (if invoking' then os_write '' INVOKING'' s4
         else os_write ''ms)''
                (os_write (show_int (timespec_to_milliseconds duetime - gettimeofday_ms s4))
                   (os_write '' SCHEDULING(in '' s4)))
      else s4)"

text \<open>What a trace wrote to the stream.\<close>

fun written :: "event list \<Rightarrow> string" where
  "written [] = []"
| "written (EvWrite str # es) = str @ written es"
| "written (e # es) = written es"

subsection \<open>Interleavings\<close>

text \<open>
  Modelled from the spec: the timer subsystem delivers the callback of a registration
  once. The fire takes the registration out of \<open>registered\<close> (from then on
  \<^verbatim>\<open>raft_timer_del\<close> fails for it) and calls the static \<^verbatim>\<open>on_timedout(arg)\<close>. A
  registration may fire at any moment: its due-time is not consulted, which only adds
  interleavings.
\<close>

definition timer_fire :: "raft_timer_t \<Rightarrow> bool \<Rightarrow> world \<Rightarrow> world option" where
  "timer_fire t bthread_ok s =
     (if t \<in> set (map fst (registered s))
      then Some (on_timedout_arg bthread_ok
                   (emit (EvFire t)
                      (s\<lparr>registered := filter (\<lambda>r. fst r \<noteq> t) (registered s)\<rparr>)))
      else None)"

text \<open>
  One transition of the world. The booleans are the answers of the collaborators
  during the transition: whether \<^verbatim>\<open>raft_timer_add\<close> accepts, whether
  \<^verbatim>\<open>bthread_start_background\<close> succeeds. \<open>ActBegin i\<close> and \<open>ActEnd i\<close> are the two
  critical sections of the \<open>i\<close>-th call of \<^verbatim>\<open>on_timedout()\<close> in progress; between them
  that call is inside \<^verbatim>\<open>run()\<close>, and whatever \<^verbatim>\<open>run()\<close> or another thread calls on the
  task meanwhile is a transition of its own. \<open>None\<close>: the action is not possible in
  this world.
\<close>

datatype action =
    ActStart bool bool
  | ActStop
  | ActReset bool bool
  | ActResetMs int bool bool
  | ActDestroy
  | ActFire raft_timer_t bool
  | ActBegin nat
  | ActEnd nat bool bool
  | ActTick nat

fun step :: "(int \<Rightarrow> int) \<Rightarrow> action \<Rightarrow> world \<Rightarrow> (check_failure + world) option" where
  "step adj (ActStart a b) s = Some (Inr (start adj a b s))"
| "step adj ActStop s = Some (stop s)"
| "step adj (ActReset a b) s = Some (reset adj a b s)"
| "step adj (ActResetMs ms a b) s = Some (reset_ms adj a b ms s)"
| "step adj ActDestroy s = Some (destroy s)"
| "step adj (ActFire t b) s = map_option Inr (timer_fire t b s)"
| "step adj (ActBegin i) s =
     (if i < length (callbacks s) \<and> snd (callbacks s ! i) = Dispatched
      then Some (Inr (on_timedout_begin
                        (s\<lparr>callbacks := (callbacks s)[i := (fst (callbacks s ! i), InRun)]\<rparr>)))
      else None)"
| "step adj (ActEnd i a b) s =
     (if i < length (callbacks s) \<and> snd (callbacks s ! i) = InRun
      then Some (on_timedout_end adj a b
                   (s\<lparr>callbacks := take i (callbacks s) @ drop (Suc i) (callbacks s)\<rparr>))
      else None)"
| "step adj (ActTick n) s = Some (Inr (s\<lparr>clock := clock s + int n\<rparr>))"

fun exec :: "(int \<Rightarrow> int) \<Rightarrow> action list \<Rightarrow> world \<Rightarrow> (check_failure + world) option" where
  "exec adj [] s = Some (Inr s)"
| "exec adj (a # as) s =
     (case step adj a s of
        Some (Inr s') \<Rightarrow> exec adj as s'
      | r \<Rightarrow> r)"

text \<open>The worlds a task can be in: constructed, initialised, then any transitions.\<close>

inductive reachable :: "(int \<Rightarrow> int) \<Rightarrow> world \<Rightarrow> bool" for adj :: "int \<Rightarrow> int" where
  fresh: "reachable adj (init ms (RepeatedTimerTask_new d0 t0))"
| after: "reachable adj s \<Longrightarrow> step adj a s = Some (Inr s') \<Longrightarrow> reachable adj s'"

subsection \<open>A call from entry to return\<close>




subsection \<open>Invariants\<close>

text \<open>
  The shape of a world between transitions: the mutex is free, a destroyed task is
  stopped, and exactly one of four situations holds: idle; one registration, the one
  \<^verbatim>\<open>_timer\<close> names; one call of \<^verbatim>\<open>on_timedout()\<close> that has not yet taken the mutex; one
  call inside \<^verbatim>\<open>run()\<close>.
\<close>

definition shape :: "world \<Rightarrow> bool" where
  "shape s \<longleftrightarrow>
     \<not> mutex s \<and> (destroyed s \<longrightarrow> stopped s) \<and>
     ((registered s = [] \<and> callbacks s = [] \<and> \<not> running s \<and> stopped s \<and> \<not> invoking s) \<or>
      (registered s = [(timer s, next_duetime s)] \<and> callbacks s = [] \<and>
         running s \<and> \<not> stopped s \<and> \<not> invoking s) \<or>
      (registered s = [] \<and> (\<exists>m. callbacks s = [(m, Dispatched)]) \<and> running s \<and> \<not> invoking s) \<or>
      (registered s = [] \<and> (\<exists>m. callbacks s = [(m, InRun)]) \<and> running s \<and> invoking s))"

text \<open>Whether the mutex is held after a trace, and whether every \<^verbatim>\<open>run()\<close> of a trace
  was called with the mutex free; \<open>h\<close> is whether it is held at the start.\<close>

fun held_after :: "bool \<Rightarrow> event list \<Rightarrow> bool" where
  "held_after h [] = h"
| "held_after h (EvLock # es) = held_after True es"
| "held_after h (EvUnlock i r # es) = held_after False es"
| "held_after h (e # es) = held_after h es"

fun run_unlocked :: "bool \<Rightarrow> event list \<Rightarrow> bool" where
  "run_unlocked h [] = True"
| "run_unlocked h (EvLock # es) = run_unlocked True es"
| "run_unlocked h (EvUnlock i r # es) = run_unlocked False es"
| "run_unlocked h (EvRun # es) = (\<not> h \<and> run_unlocked h es)"
| "run_unlocked h (e # es) = run_unlocked h es"

text \<open>Every release of a trace found \<^verbatim>\<open>_running\<close> set if \<^verbatim>\<open>_invoking\<close> was.\<close>

fun release_ok :: "event \<Rightarrow> bool" where
  "release_ok (EvUnlock i r) = (r \<or> \<not> i)"
| "release_ok e = True"

text \<open>The calls of the destruction hook in a trace.\<close>

fun hook_calls :: "event list \<Rightarrow> nat" where
  "hook_calls [] = 0"
| "hook_calls (EvOnDestroy r # es) = Suc (hook_calls es)"
| "hook_calls (e # es) = hook_calls es"

text \<open>The registrations outstanding after a trace that starts with \<open>n\<close> of them, and
  whether every call of \<^verbatim>\<open>raft_timer_add\<close> in the trace (one per call of
  \<^verbatim>\<open>schedule\<close>) found none outstanding.\<close>

fun outstanding_after :: "nat \<Rightarrow> event list \<Rightarrow> nat" where
  "outstanding_after n [] = n"
| "outstanding_after n (EvTimerAdd due rc # es) =
     outstanding_after (if rc = 0 then Suc n else n) es"
| "outstanding_after n (EvTimerDel t rc # es) =
     outstanding_after (if rc = 0 then n - 1 else n) es"
| "outstanding_after n (EvFire t # es) = outstanding_after (n - 1) es"
| "outstanding_after n (e # es) = outstanding_after n es"

fun arms_when_clear :: "nat \<Rightarrow> event list \<Rightarrow> bool" where
  "arms_when_clear n [] = True"
| "arms_when_clear n (EvTimerAdd due rc # es) =
     (n = 0 \<and> arms_when_clear (if rc = 0 then Suc n else n) es)"
| "arms_when_clear n (EvTimerDel t rc # es) =
     arms_when_clear (if rc = 0 then n - 1 else n) es"
| "arms_when_clear n (EvFire t # es) = arms_when_clear (n - 1) es"
| "arms_when_clear n (e # es) = arms_when_clear n es"

definition trace_ok :: "world \<Rightarrow> bool" where
  "trace_ok s \<longleftrightarrow>
     \<not> held_after False (trace s) \<and> run_unlocked False (trace s) \<and>
     list_all release_ok (trace s) \<and>
     outstanding_after 0 (trace s) = length (registered s) \<and>
     arms_when_clear 0 (trace s)"

text \<open>The hook has been called once if the task is destroyed and no longer running,
  and not at all otherwise.\<close>

definition hook_once :: "world \<Rightarrow> bool" where
  "hook_once s \<longleftrightarrow> hook_calls (trace s) = (if destroyed s \<and> \<not> running s then 1 else 0)"

definition task_inv :: "world \<Rightarrow> bool" where
  "task_inv s \<longleftrightarrow> shape s \<and> trace_ok s \<and> hook_once s"

subsection \<open>Worlds used as examples\<close>

text \<open>A task initialised with a period of 100 ms and never started.\<close>

definition ex_idle :: world where
  "ex_idle = init 100 (RepeatedTimerTask_new 0 0)"

text \<open>The same task after \<^verbatim>\<open>start()\<close>, the fire of its registration, and the first
  critical section of the callback: \<^verbatim>\<open>run()\<close> is executing.\<close>

definition ex_in_run :: world where
  "ex_in_run =
     \<lparr>timeout_ms = 100, stopped = False, running = True, destroyed = False,
      invoking = True, next_duetime = 100, timer = 1, mutex = False,
      registered = [], next_id = 2, callbacks = [(Background, InRun)], clock = 0,
      trace = [EvLock, EvTimerAdd 100 0, EvUnlock False True, EvFire 1, EvBthreadStart 0,
               EvLock, EvUnlock True True, EvRun]\<rparr>"

text \<open>Then \<^verbatim>\<open>stop()\<close> during that \<^verbatim>\<open>run()\<close>: the cancellation fails.\<close>

definition ex_stop_pending :: world where
  "ex_stop_pending =
     \<lparr>timeout_ms = 100, stopped = True, running = True, destroyed = False,
      invoking = True, next_duetime = 100, timer = 1, mutex = False,
      registered = [], next_id = 2, callbacks = [(Background, InRun)], clock = 0,
      trace = [EvLock, EvTimerAdd 100 0, EvUnlock False True, EvFire 1, EvBthreadStart 0,
               EvLock, EvUnlock True True, EvRun,
               EvLock, EvTimerDel 1 1, EvUnlock True True]\<rparr>"

text \<open>The idle task after \<^verbatim>\<open>destroy()\<close>.\<close>

definition ex_destroyed :: world where
  "ex_destroyed =
     \<lparr>timeout_ms = 100, stopped = True, running = False, destroyed = True,
      invoking = False, next_duetime = 0, timer = 0, mutex = False,
      registered = [], next_id = 1, callbacks = [], clock = 0,
      trace = [EvLock, EvUnlock False False, EvOnDestroy False]\<rparr>"

text \<open>The idle task after \<^verbatim>\<open>start()\<close> and 30 ms: one registration, due in 70 ms.\<close>

definition ex_armed :: world where
  "ex_armed =
     \<lparr>timeout_ms = 100, stopped = False, running = True, destroyed = False,
      invoking = False, next_duetime = 100, timer = 1, mutex = False,
      registered = [(1, 100)], next_id = 2, callbacks = [], clock = 30,
      trace = [EvLock, EvTimerAdd 100 0, EvUnlock False True]\<rparr>"

text \<open>\<^verbatim>\<open>destroy()\<close> during the \<^verbatim>\<open>run()\<close> of \<open>ex_in_run\<close>: the cancellation fails and
  the hook is left to the callback.\<close>

definition ex_destroy_pending :: world where
  "ex_destroy_pending =
     \<lparr>timeout_ms = 100, stopped = True, running = True, destroyed = True,
      invoking = True, next_duetime = 100, timer = 1, mutex = False,
      registered = [], next_id = 2, callbacks = [(Background, InRun)], clock = 0,
      trace = [EvLock, EvTimerAdd 100 0, EvUnlock False True, EvFire 1, EvBthreadStart 0,
               EvLock, EvUnlock True True, EvRun,
               EvLock, EvTimerDel 1 1, EvUnlock True True]\<rparr>"

section \<open>Properties\<close>

subsection \<open>The invariant holds in every reachable world\<close>

lemmas defs = emit_def lock_def unlock_def scope_exit_def run_def on_destroy_def
  milliseconds_from_now_def raft_timer_add_def raft_timer_del_def
  run_on_timedout_in_new_thread_def on_timedout_arg_def schedule_def

lemma held_after_append [simp]: "held_after h (xs @ ys) = held_after (held_after h xs) ys"
  by (induction h xs rule: held_after.induct) simp_all

lemma run_unlocked_append [simp]:
  "run_unlocked h (xs @ ys) = (run_unlocked h xs \<and> run_unlocked (held_after h xs) ys)"
  by (induction h xs rule: run_unlocked.induct) auto

lemma hook_calls_append [simp]: "hook_calls (xs @ ys) = hook_calls xs + hook_calls ys"
  by (induction xs rule: hook_calls.induct) simp_all

lemma outstanding_after_append [simp]:
  "outstanding_after n (xs @ ys) = outstanding_after (outstanding_after n xs) ys"
  by (induction n xs rule: outstanding_after.induct) simp_all

lemma arms_when_clear_append [simp]:
  "arms_when_clear n (xs @ ys) = (arms_when_clear n xs \<and> arms_when_clear (outstanding_after n xs) ys)"
  by (induction n xs rule: arms_when_clear.induct) auto

lemma invE:
  assumes "task_inv s"
  obtains
    (idle) "\<not> mutex s" "destroyed s \<longrightarrow> stopped s" "registered s = []" "callbacks s = []" "\<not> running s" "stopped s" "\<not> invoking s"
       "\<not> held_after False (trace s)" "run_unlocked False (trace s)" "list_all release_ok (trace s)"
       "outstanding_after 0 (trace s) = 0" "arms_when_clear 0 (trace s)"
       "hook_calls (trace s) = (if destroyed s then 1 else 0)"
  | (armed) "\<not> mutex s" "\<not> destroyed s" "registered s = [(timer s, next_duetime s)]" "callbacks s = []" "running s" "\<not> stopped s" "\<not> invoking s"
       "\<not> held_after False (trace s)" "run_unlocked False (trace s)" "list_all release_ok (trace s)"
       "outstanding_after 0 (trace s) = Suc 0" "arms_when_clear 0 (trace s)"
       "hook_calls (trace s) = 0"
  | (dispatched) m where "\<not> mutex s" "destroyed s \<longrightarrow> stopped s" "\<not> stopped s \<longrightarrow> \<not> destroyed s" "registered s = []" "callbacks s = [(m, Dispatched)]" "running s" "\<not> invoking s"
       "\<not> held_after False (trace s)" "run_unlocked False (trace s)" "list_all release_ok (trace s)"
       "outstanding_after 0 (trace s) = 0" "arms_when_clear 0 (trace s)"
       "hook_calls (trace s) = 0"
  | (inrun) m where "\<not> mutex s" "destroyed s \<longrightarrow> stopped s" "\<not> stopped s \<longrightarrow> \<not> destroyed s" "registered s = []" "callbacks s = [(m, InRun)]" "running s" "invoking s"
       "\<not> held_after False (trace s)" "run_unlocked False (trace s)" "list_all release_ok (trace s)"
       "outstanding_after 0 (trace s) = 0" "arms_when_clear 0 (trace s)"
       "hook_calls (trace s) = 0"
  using assms unfolding task_inv_def shape_def trace_ok_def hook_once_def by (auto split: if_splits)

lemmas inv_defs = task_inv_def shape_def trace_ok_def hook_once_def

lemma inv_fresh: "task_inv (init ms (RepeatedTimerTask_new d0 t0))"
  by (simp add: inv_defs init_def RepeatedTimerTask_new_def)

lemma inv_stop: "task_inv s \<Longrightarrow> \<exists>s'. stop s = Inr s' \<and> task_inv s'"
  by (erule invE) (simp_all add: stop_def defs Let_def inv_defs)

lemma inv_start: "task_inv s \<Longrightarrow> task_inv (start adj a b s)"
  by (erule invE) (simp_all add: start_def defs Let_def inv_defs)

lemma inv_reset: "task_inv s \<Longrightarrow> \<exists>s'. reset adj a b s = Inr s' \<and> task_inv s'"
  by (erule invE) (simp_all add: reset_def defs Let_def inv_defs)

lemma inv_reset_ms: "task_inv s \<Longrightarrow> \<exists>s'. reset_ms adj a b ms s = Inr s' \<and> task_inv s'"
  by (erule invE) (simp_all add: reset_ms_def defs Let_def inv_defs)

lemma inv_destroy: "task_inv s \<Longrightarrow> \<exists>s'. destroy s = Inr s' \<and> task_inv s'"
  by (erule invE) (simp_all add: destroy_def defs Let_def inv_defs)

lemma inv_fire_armed:
  "task_inv s \<Longrightarrow> t \<in> set (map fst (registered s)) \<Longrightarrow> \<exists>s'. timer_fire t b s = Some s' \<and> task_inv s'"
  by (erule invE) (simp_all add: timer_fire_def defs Let_def inv_defs)

lemma timer_fire_Some: "timer_fire t b s = Some s' \<Longrightarrow> t \<in> set (map fst (registered s))"
  by (simp add: timer_fire_def split: if_splits)

lemma inv_fire: "task_inv s \<Longrightarrow> timer_fire t b s = Some s' \<Longrightarrow> task_inv s'"
  using inv_fire_armed [of s t b] timer_fire_Some [of t b s s'] by auto

lemma inv_begin:
  "task_inv s \<Longrightarrow> i < length (callbacks s) \<Longrightarrow> snd (callbacks s ! i) = Dispatched \<Longrightarrow>
   task_inv (on_timedout_begin (s\<lparr>callbacks := (callbacks s)[i := (fst (callbacks s ! i), InRun)]\<rparr>))"
  by (erule invE) (simp_all add: on_timedout_begin_def defs Let_def inv_defs)

lemma inv_end:
  "task_inv s \<Longrightarrow> i < length (callbacks s) \<Longrightarrow> snd (callbacks s ! i) = InRun \<Longrightarrow>
   \<exists>s'. on_timedout_end adj a b (s\<lparr>callbacks := take i (callbacks s) @ drop (Suc i) (callbacks s)\<rparr>) = Inr s' \<and> task_inv s'"
  by (erule invE) (simp_all add: on_timedout_end_def defs Let_def inv_defs)

lemma inv_tick: "task_inv s \<Longrightarrow> task_inv (s\<lparr>clock := clock s + int n\<rparr>)"
  by (simp add: inv_defs)

lemma inv_step: "task_inv s \<Longrightarrow> step adj a s = Some r \<Longrightarrow> \<exists>s'. r = Inr s' \<and> task_inv s'"
proof (cases a)
  case (ActStart x11 x12)
  assume "task_inv s" "step adj a s = Some r"
  with ActStart show ?thesis using inv_start by auto
next
  case ActStop
  assume "task_inv s" "step adj a s = Some r"
  with ActStop show ?thesis using inv_stop[of s] by auto
next
  case (ActReset x31 x32)
  assume "task_inv s" "step adj a s = Some r"
  with ActReset show ?thesis using inv_reset[of s] by auto
next
  case (ActResetMs x41 x42 x43)
  assume "task_inv s" "step adj a s = Some r"
  with ActResetMs show ?thesis using inv_reset_ms[of s] by auto
next
  case ActDestroy
  assume "task_inv s" "step adj a s = Some r"
  with ActDestroy show ?thesis using inv_destroy[of s] by auto
next
  case (ActFire x61 x62)
  assume "task_inv s" "step adj a s = Some r"
  with ActFire show ?thesis using inv_fire[of s] by auto
next
  case (ActBegin x7)
  assume "task_inv s" "step adj a s = Some r"
  with ActBegin show ?thesis using inv_begin[of s x7] by (auto split: if_splits)
next
  case (ActEnd x81 x82 x83)
  assume "task_inv s" "step adj a s = Some r"
  with ActEnd show ?thesis using inv_end[of s x81 adj x82 x83] by (auto split: if_splits)
next
  case (ActTick x9)
  assume "task_inv s" "step adj a s = Some r"
  with ActTick show ?thesis using inv_tick[of s x9] by auto
qed

lemma reachable_inv: "reachable adj s \<Longrightarrow> task_inv s"
proof (induction rule: reachable.induct)
  case (fresh ms d0 t0)
  show ?case by (rule inv_fresh)
next
  case (after s a s')
  then show ?case using inv_step[of s adj a "Inr s'"] by simp
qed

lemma exec_reachable:
  "reachable adj s \<Longrightarrow> exec adj as s = Some (Inr s') \<Longrightarrow> reachable adj s'"
proof (induction as arbitrary: s)
  case Nil
  then show ?case by simp
next
  case (Cons a as)
  then show ?case by (auto split: option.splits sum.splits intro: reachable.after)
qed


lemma exec_from_fresh:
  "exec adj as (init ms (RepeatedTimerTask_new d0 t0)) = Some (Inr s) \<Longrightarrow> reachable adj s"
  using exec_reachable [OF reachable.fresh] .

lemma shape_flags:
  assumes "task_inv s"
  shows "\<not> mutex s" and "\<not> stopped s \<longrightarrow> running s" and "destroyed s \<longrightarrow> stopped s"
    and "invoking s \<longrightarrow> running s" and "length (registered s) \<le> 1"
    and "length (registered s) + length (callbacks s) = (if running s then 1 else 0)"
  using assms by (auto elim!: invE)

subsection \<open>The example worlds are reachable\<close>

lemmas ex_defs = init_def RepeatedTimerTask_new_def raft_timer_t_def

lemma ex_idle_reachable: "reachable adj ex_idle"
  unfolding ex_idle_def by (rule reachable.fresh)

lemma ex_in_run_exec:
  "exec (\<lambda>x. x) [ActStart True True, ActFire 1 True, ActBegin 0] ex_idle = Some (Inr ex_in_run)"
  by (simp add: ex_idle_def ex_in_run_def ex_defs start_def timer_fire_def
      on_timedout_begin_def defs Let_def)

lemma ex_in_run_reachable: "reachable (\<lambda>x. x) ex_in_run"
  using exec_reachable [OF ex_idle_reachable ex_in_run_exec] .

lemma ex_stop_pending_exec:
  "exec (\<lambda>x. x) [ActStop] ex_in_run = Some (Inr ex_stop_pending)"
  by (simp add: ex_in_run_def ex_stop_pending_def stop_def defs Let_def)

lemma ex_stop_pending_reachable: "reachable (\<lambda>x. x) ex_stop_pending"
  using exec_reachable [OF ex_in_run_reachable ex_stop_pending_exec] .

lemma ex_armed_exec:
  "exec (\<lambda>x. x) [ActStart True True, ActTick 30] ex_idle = Some (Inr ex_armed)"
  by (simp add: ex_idle_def ex_armed_def ex_defs start_def defs Let_def)

lemma ex_armed_reachable: "reachable (\<lambda>x. x) ex_armed"
  using exec_reachable [OF ex_idle_reachable ex_armed_exec] .

lemma ex_destroy_pending_exec:
  "exec (\<lambda>x. x) [ActDestroy] ex_in_run = Some (Inr ex_destroy_pending)"
  by (simp add: ex_in_run_def ex_destroy_pending_def destroy_def defs Let_def)

lemma ex_destroy_pending_reachable: "reachable (\<lambda>x. x) ex_destroy_pending"
  using exec_reachable [OF ex_in_run_reachable ex_destroy_pending_exec] .

lemma ex_destroyed_exec:
  "exec adj [ActDestroy] ex_idle = Some (Inr ex_destroyed)"
  by (simp add: ex_idle_def ex_destroyed_def ex_defs destroy_def defs Let_def)

lemma ex_destroyed_reachable: "reachable adj ex_destroyed"
  using exec_reachable [OF ex_idle_reachable ex_destroyed_exec] .

subsection \<open>Facts about single methods\<close>

lemma timer_del_fails: "fst (raft_timer_del t s) \<noteq> 0 \<longleftrightarrow> t \<notin> set (map fst (registered s))"
  by (simp add: raft_timer_del_def)

lemma reconcile_stopped:
  assumes "stopped s" and "running s"
  shows "on_timedout_end adj a b s =
           Inr (s\<lparr>mutex := False, invoking := False, running := False,
                  trace := trace s @ EvLock # (if destroyed s then [EvOnDestroy True] else [])
                             @ [EvUnlock False False]\<rparr>)"
  using assms by (simp add: on_timedout_end_def defs Let_def)

lemma destroyed_noop:
  assumes "task_inv s" and "destroyed s"
  shows "start adj a b s = s\<lparr>trace := trace s @ [EvLock, EvUnlock (invoking s) (running s)]\<rparr>"
    and "stop s = Inr (s\<lparr>trace := trace s @ [EvLock, EvUnlock (invoking s) (running s)]\<rparr>)"
    and "reset adj a b s = Inr (s\<lparr>trace := trace s @ [EvLock, EvUnlock (invoking s) (running s)]\<rparr>)"
    and "destroy s = Inr (s\<lparr>trace := trace s @ [EvLock, EvUnlock (invoking s) (running s)]\<rparr>)"
    and "reset_ms adj a b ms s =
           Inr (s\<lparr>timeout_ms := ms, trace := trace s @ [EvLock, EvUnlock (invoking s) (running s)]\<rparr>)"
proof -
  have m: "\<not> mutex s" and st: "stopped s"
    using shape_flags(1,3) [OF assms(1)] assms(2) by simp_all
  show "start adj a b s = s\<lparr>trace := trace s @ [EvLock, EvUnlock (invoking s) (running s)]\<rparr>"
    using m st assms(2) by (simp add: start_def defs Let_def)
  show "stop s = Inr (s\<lparr>trace := trace s @ [EvLock, EvUnlock (invoking s) (running s)]\<rparr>)"
    using m st assms(2) by (simp add: stop_def defs Let_def)
  show "reset adj a b s = Inr (s\<lparr>trace := trace s @ [EvLock, EvUnlock (invoking s) (running s)]\<rparr>)"
    using m st assms(2) by (simp add: reset_def defs Let_def)
  show "destroy s = Inr (s\<lparr>trace := trace s @ [EvLock, EvUnlock (invoking s) (running s)]\<rparr>)"
    using m st assms(2) by (simp add: destroy_def defs Let_def)
  show "reset_ms adj a b ms s =
           Inr (s\<lparr>timeout_ms := ms, trace := trace s @ [EvLock, EvUnlock (invoking s) (running s)]\<rparr>)"
    using m st assms(2) by (simp add: reset_ms_def defs Let_def)
qed

lemma destroyed_fire:
  "task_inv s \<Longrightarrow> destroyed s \<Longrightarrow> timer_fire t b s = None"
  by (erule invE) (simp_all add: timer_fire_def)

lemma destroyed_end:
  "task_inv s \<Longrightarrow> destroyed s \<Longrightarrow> i < length (callbacks s) \<Longrightarrow>
   \<exists>s'. on_timedout_end adj a b (s\<lparr>callbacks := cs\<rparr>) = Inr s' \<and> destroyed s'"
  by (erule invE) (simp_all add: on_timedout_end_def defs Let_def)

lemma destroyed_step:
  assumes "task_inv s" and "destroyed s" and "step adj a s = Some (Inr s')"
  shows "destroyed s'"
proof (cases a)
  case (ActStart x11 x12)
  with assms show ?thesis by (auto simp add: destroyed_noop(1))
next
  case ActStop
  with assms show ?thesis by (auto simp add: destroyed_noop(2))
next
  case (ActReset x31 x32)
  with assms show ?thesis by (auto simp add: destroyed_noop(3))
next
  case (ActResetMs x41 x42 x43)
  with assms show ?thesis by (auto simp add: destroyed_noop(5))
next
  case ActDestroy
  with assms show ?thesis by (auto simp add: destroyed_noop(4))
next
  case (ActFire x61 x62)
  with assms show ?thesis by (simp add: destroyed_fire)
next
  case (ActBegin x7)
  with assms show ?thesis by (auto simp add: on_timedout_begin_def defs Let_def split: if_splits)
next
  case (ActEnd x81 x82 x83)
  with assms destroyed_end [OF assms(1,2), of x81 adj x82 x83 "take x81 (callbacks s) @ drop (Suc x81) (callbacks s)"]
  show ?thesis by (auto split: if_splits)
next
  case (ActTick x9)
  with assms show ?thesis by auto
qed

lemma timeout_ms_kept [simp]:
  "timeout_ms (emit e s) = timeout_ms s"
  "timeout_ms (unlock s) = timeout_ms s"
  "timeout_ms (scope_exit s) = timeout_ms s"
  "timeout_ms (on_timedout_arg b s) = timeout_ms s"
  "timeout_ms (snd (raft_timer_del t s)) = timeout_ms s"
  "timeout_ms (schedule adj a b s) = timeout_ms s"
  by (simp_all add: defs Let_def)

lemma timer_del_timeout_ms:
  "raft_timer_del t s = (rc, s') \<Longrightarrow> timeout_ms s' = timeout_ms s"
  by (auto simp add: raft_timer_del_def emit_def split: if_splits)

lemma reset_ms_stores:
  "reset_ms adj a b ms s = Inr s' \<Longrightarrow> timeout_ms s' = ms"
  by (auto simp add: reset_ms_def Let_def lock_def split: if_splits prod.splits
      dest: timer_del_timeout_ms)

lemma reset_stopped:
  assumes "stopped s"
  shows "reset_ms adj a b ms s =
           Inr (s\<lparr>mutex := False, timeout_ms := ms,
                  trace := trace s @ [EvLock, EvUnlock (invoking s) (running s)]\<rparr>)"
    and "reset adj a b s =
           Inr (s\<lparr>mutex := False,
                  trace := trace s @ [EvLock, EvUnlock (invoking s) (running s)]\<rparr>)"
  using assms by (simp_all add: reset_ms_def reset_def defs Let_def)

lemma start_idle:
  assumes "stopped s" and "\<not> running s" and "\<not> destroyed s"
  shows "start adj True b s =
           s\<lparr>mutex := False, stopped := False, running := True,
             next_duetime := clock s + adj (timeout_ms s), timer := next_id s,
             registered := registered s @ [(next_id s, clock s + adj (timeout_ms s))],
             next_id := Suc (next_id s),
             trace := trace s @ [EvLock, EvTimerAdd (clock s + adj (timeout_ms s)) 0,
                                 EvUnlock (invoking s) True]\<rparr>"
    and "start adj False b s =
           s\<lparr>mutex := False, stopped := False, running := True,
             next_duetime := clock s + adj (timeout_ms s),
             callbacks := callbacks s @ [(if b then Background else Inline, Dispatched)],
             trace := trace s @ [EvLock, EvTimerAdd (clock s + adj (timeout_ms s)) 1,
                                 EvUnlock (invoking s) True,
                                 EvBthreadStart (if b then 0 else 1)]\<rparr>"
  using assms by (simp_all add: start_def defs Let_def)


lemma hook_called_once:
  "reachable adj s \<Longrightarrow> hook_calls (trace s) = (if destroyed s \<and> \<not> running s then 1 else 0)"
  using reachable_inv [of adj s] by (simp add: task_inv_def hook_once_def)

lemma written_append [simp]: "written (xs @ ys) = written xs @ written ys"
  by (induction xs rule: written.induct) simp_all

lemma written_writes [simp]: "written (map EvWrite ws) = concat ws"
  by (induction ws) simp_all

lemma idle_not_invoking: "task_inv s \<Longrightarrow> callbacks s = [] \<Longrightarrow> \<not> invoking s"
  by (erule invE) simp_all

lemma destroyed_running_callback:
  "task_inv s \<Longrightarrow> destroyed s \<Longrightarrow> running s \<Longrightarrow> callbacks s \<noteq> []"
  by (erule invE) simp_all

lemma destroyed_end_hook:
  "task_inv s \<Longrightarrow> destroyed s \<Longrightarrow> i < length (callbacks s) \<Longrightarrow>
   \<exists>s'. on_timedout_end adj a b (s\<lparr>callbacks := cs\<rparr>) = Inr s' \<and> destroyed s' \<and> \<not> running s' \<and>
        hook_calls (trace s') = Suc (hook_calls (trace s))"
  by (erule invE) (simp_all add: on_timedout_end_def defs Let_def)






lemma callbacks_begin [simp]: "callbacks (on_timedout_begin s) = callbacks s"
  by (simp add: on_timedout_begin_def defs Let_def)


subsection \<open>The claims\<close>

text \<open>
  C10. In every world reachable from the one \<^verbatim>\<open>init\<close> produces, by \<^verbatim>\<open>start\<close>,
  \<^verbatim>\<open>stop\<close>, the two \<^verbatim>\<open>reset\<close>s, \<^verbatim>\<open>destroy\<close>, timer fires and the two halves of the
  callback, a task that is not stopped is running; and no transition from such a world
  ends in a failed \<^verbatim>\<open>CHECK\<close>: not the \<^verbatim>\<open>CHECK(_running)\<close> of \<^verbatim>\<open>stop\<close>, of the
  \<^verbatim>\<open>reset\<close>s, of \<^verbatim>\<open>destroy\<close> and of the reconciliation in \<^verbatim>\<open>on_timedout\<close>, nor the
  \<^verbatim>\<open>CHECK(_stopped)\<close> of \<^verbatim>\<open>destroy\<close>.
\<close>

theorem checks_never_fail:
  assumes "reachable adj s"
  shows "(\<not> stopped s \<longrightarrow> running s) \<and> (\<forall>a c. step adj a s \<noteq> Some (Inl c))"
proof -
  have i: "task_inv s" using assms by (rule reachable_inv)
  have "step adj a s \<noteq> Some (Inl c)" for a c
    using inv_step [OF i, of adj a "Inl c"] by auto
  with shape_flags(2) [OF i] show ?thesis by blast
qed

theorem checks_never_fail_witness:
  "reachable (\<lambda>x. x) ex_in_run \<and> \<not> stopped ex_in_run \<and> running ex_in_run \<and>
   step (\<lambda>x. x) ActStop ex_in_run \<noteq> Some (Inl CHECK_running) \<and>
   step (\<lambda>x. x) (ActEnd 0 True True) ex_in_run \<noteq> Some (Inl CHECK_running)"
proof -
  have "\<not> stopped ex_in_run" and "running ex_in_run"
    by (simp_all add: ex_in_run_def)
  with checks_never_fail [OF ex_in_run_reachable] ex_in_run_reachable
  show ?thesis by blast
qed

text \<open>
  C1. Let the task be started and running, and let \<^verbatim>\<open>stop()\<close> be called while a fire is
  in flight, so that \<^verbatim>\<open>raft_timer_del\<close> returns non-zero. Then \<^verbatim>\<open>stop()\<close> leaves
  \<^verbatim>\<open>_running\<close> and \<^verbatim>\<open>_stopped\<close> both true, and when the callback in flight reaches its
  reconciliation (whether it had already entered \<^verbatim>\<open>run()\<close> when \<^verbatim>\<open>stop()\<close> was called or
  enters it afterwards) it finds \<^verbatim>\<open>_stopped\<close>, clears \<^verbatim>\<open>_running\<close> and does not call
  \<^verbatim>\<open>schedule\<close>: nothing is registered, no new callback is started, the due-time is
  untouched, and the trace shows no call of \<^verbatim>\<open>raft_timer_add\<close>. The task ends stopped
  and not rearmed.
\<close>

theorem stop_in_flight_ends_stopped:
  assumes "\<not> stopped s" and "running s" and "fst (raft_timer_del (timer s) s) \<noteq> 0"
  shows "\<exists>s1. stop s = Inr s1 \<and> stopped s1 \<and> running s1 \<and> registered s1 = registered s \<and>
           (\<forall>adj a b. \<exists>s2.
              on_timedout_end adj a b s1 = Inr s2 \<and> stopped s2 \<and> \<not> running s2 \<and>
              registered s2 = registered s \<and> callbacks s2 = callbacks s \<and>
              next_duetime s2 = next_duetime s \<and>
              trace s2 = trace s1 @ EvLock # (if destroyed s then [EvOnDestroy True] else [])
                           @ [EvUnlock False False]) \<and>
           (\<forall>adj a b. \<exists>s2.
              on_timedout_end adj a b (on_timedout_begin s1) = Inr s2 \<and>
              stopped s2 \<and> \<not> running s2 \<and>
              registered s2 = registered s \<and> callbacks s2 = callbacks s \<and>
              next_duetime s2 = next_duetime s \<and>
              trace s2 = trace s1 @ [EvLock, EvUnlock True True, EvRun, EvLock]
                           @ (if destroyed s then [EvOnDestroy True] else [])
                           @ [EvUnlock False False])"
proof -
  let ?s1 = "s\<lparr>mutex := False, stopped := True,
               trace := trace s @ [EvLock, EvTimerDel (timer s) 1, EvUnlock (invoking s) True]\<rparr>"
  have nf: "timer s \<notin> set (map fst (registered s))"
    using assms(3) timer_del_fails [of "timer s" s] by blast
  have st: "stop s = Inr ?s1"
    using assms(1,2) nf by (simp add: stop_def defs Let_def)
  have a: "stopped ?s1" "running ?s1" using assms by simp_all
  have b: "stopped (on_timedout_begin ?s1)" "running (on_timedout_begin ?s1)"
    using assms by (simp_all add: on_timedout_begin_def defs Let_def)
  show ?thesis
    unfolding st
    apply (rule exI [of _ ?s1])
    apply (simp add: reconcile_stopped [OF a] reconcile_stopped [OF b] assms)
    apply (simp add: on_timedout_begin_def defs Let_def assms)
    done
qed

theorem stop_in_flight_ends_stopped_witness:
  "\<not> stopped ex_in_run \<and> running ex_in_run \<and>
   fst (raft_timer_del (timer ex_in_run) ex_in_run) \<noteq> 0 \<and>
   stop ex_in_run = Inr ex_stop_pending \<and>
   (\<exists>s2. on_timedout_end (\<lambda>x. x) True True ex_stop_pending = Inr s2 \<and>
      stopped s2 \<and> \<not> running s2 \<and> registered s2 = [])"
proof -
  have h: "\<not> stopped ex_in_run" "running ex_in_run"
      "fst (raft_timer_del (timer ex_in_run) ex_in_run) \<noteq> 0"
    by (simp_all add: ex_in_run_def raft_timer_del_def)
  have st: "stop ex_in_run = Inr ex_stop_pending"
    by (simp add: ex_in_run_def ex_stop_pending_def stop_def defs Let_def)
  have r: "registered ex_in_run = []" by (simp add: ex_in_run_def)
  from stop_in_flight_ends_stopped [OF h] st r h show ?thesis
    by fastforce
qed

text \<open>
  C3. In every world reachable from the one \<^verbatim>\<open>init\<close> produces, whatever the sequence
  of \<^verbatim>\<open>start\<close>, \<^verbatim>\<open>stop\<close>, \<^verbatim>\<open>reset\<close>, \<^verbatim>\<open>destroy\<close>, timer fires and callbacks, at most
  one timer registration is outstanding; every call of \<^verbatim>\<open>raft_timer_add\<close> in the trace
  (one per call of \<^verbatim>\<open>schedule\<close>) happened with no registration outstanding; and
  \<^verbatim>\<open>start()\<close> on a task that is still running only clears \<^verbatim>\<open>_stopped\<close> and returns:
  it arms nothing and leaves the rearm to the pending callback.
\<close>

theorem no_double_arm:
  assumes "reachable adj s"
  shows "length (registered s) \<le> 1 \<and>
         outstanding_after 0 (trace s) = length (registered s) \<and>
         arms_when_clear 0 (trace s) \<and>
         (running s \<and> stopped s \<and> \<not> destroyed s \<longrightarrow>
            start adj a b s =
              s\<lparr>stopped := False, trace := trace s @ [EvLock, EvUnlock (invoking s) True]\<rparr>)"
proof -
  have i: "task_inv s" using assms by (rule reachable_inv)
  have t: "trace_ok s" using i by (simp add: task_inv_def)
  have "start adj a b s =
          s\<lparr>stopped := False, trace := trace s @ [EvLock, EvUnlock (invoking s) True]\<rparr>"
    if "running s" "stopped s" "\<not> destroyed s"
    using that shape_flags(1) [OF i] by (simp add: start_def defs Let_def)
  with shape_flags(5) [OF i] t show ?thesis by (simp add: trace_ok_def)
qed

theorem no_double_arm_witness:
  "reachable (\<lambda>x. x) ex_stop_pending \<and> running ex_stop_pending \<and> stopped ex_stop_pending \<and>
   \<not> destroyed ex_stop_pending \<and> length (registered ex_stop_pending) \<le> 1 \<and>
   arms_when_clear 0 (trace ex_stop_pending) \<and>
   registered (start (\<lambda>x. x) True True ex_stop_pending) = [] \<and>
   \<not> stopped (start (\<lambda>x. x) True True ex_stop_pending)"
proof -
  have h: "running ex_stop_pending" "stopped ex_stop_pending" "\<not> destroyed ex_stop_pending"
    "registered ex_stop_pending = []"
    by (simp_all add: ex_stop_pending_def)
  from no_double_arm [OF ex_stop_pending_reachable, of True True] h ex_stop_pending_reachable
  show ?thesis by simp
qed

text \<open>
  C6. The first critical section of the callback takes the mutex, sets \<^verbatim>\<open>_invoking\<close>,
  releases the mutex and only then calls \<^verbatim>\<open>run()\<close>; the second one starts by taking the
  mutex again and ends with \<^verbatim>\<open>_invoking\<close> cleared. In every reachable world the mutex
  is free between transitions, every \<^verbatim>\<open>run()\<close> of the trace was called with the mutex
  free, every release of the mutex found \<^verbatim>\<open>_running\<close> set whenever \<^verbatim>\<open>_invoking\<close> was,
  and \<^verbatim>\<open>_invoking\<close> implies \<^verbatim>\<open>_running\<close>.
\<close>

theorem run_outside_lock:
  "trace (on_timedout_begin s) = trace s @ [EvLock, EvUnlock True (running s), EvRun] \<and>
   invoking (on_timedout_begin s) \<and>
   (\<forall>s'. on_timedout_end adj a b s = Inr s' \<longrightarrow>
      \<not> invoking s' \<and> (\<exists>es. trace s' = trace s @ EvLock # es)) \<and>
   (reachable adj s \<longrightarrow>
      \<not> mutex s \<and> run_unlocked False (trace s) \<and> list_all release_ok (trace s) \<and>
      (invoking s \<longrightarrow> running s))"
proof -
  have 1: "trace (on_timedout_begin s) = trace s @ [EvLock, EvUnlock True (running s), EvRun]"
    and 2: "invoking (on_timedout_begin s)"
    by (simp_all add: on_timedout_begin_def defs Let_def)
  have 3: "\<not> invoking s' \<and> (\<exists>es. trace s' = trace s @ EvLock # es)"
    if "on_timedout_end adj a b s = Inr s'" for s'
    using that by (auto simp add: on_timedout_end_def defs Let_def split: if_splits)
  have 4: "\<not> mutex s \<and> run_unlocked False (trace s) \<and> list_all release_ok (trace s) \<and>
      (invoking s \<longrightarrow> running s)" if "reachable adj s"
  proof -
    have i: "task_inv s" using that by (rule reachable_inv)
    then have "trace_ok s" by (simp add: task_inv_def)
    with shape_flags(1,4) [OF i] show ?thesis by (simp add: trace_ok_def)
  qed
  from 1 2 3 4 show ?thesis by blast
qed

theorem run_outside_lock_witness:
  "reachable (\<lambda>x. x) ex_in_run \<and> invoking ex_in_run \<and> running ex_in_run \<and>
   run_unlocked False (trace ex_in_run) \<and>
   (\<exists>s'. on_timedout_end (\<lambda>x. x) True True ex_in_run = Inr s' \<and> \<not> invoking s')"
proof -
  have h: "invoking ex_in_run" by (simp add: ex_in_run_def)
  obtain s' where e: "on_timedout_end (\<lambda>x. x) True True ex_in_run = Inr s'"
    by (simp add: ex_in_run_def on_timedout_end_def defs Let_def)
  from run_outside_lock [of ex_in_run "\<lambda>x. x" True True] h e ex_in_run_reachable
  show ?thesis by blast
qed

text \<open>
  C4, as amended. \<^verbatim>\<open>_destroyed\<close> is sticky: no transition of the task (no method, no
  fire, no callback) clears it; only \<^verbatim>\<open>init\<close> does. On a task that has been destroyed,
  \<^verbatim>\<open>start()\<close>, \<^verbatim>\<open>stop()\<close>, \<^verbatim>\<open>reset()\<close> and \<^verbatim>\<open>destroy()\<close> take and release the mutex
  and change nothing. \<^verbatim>\<open>reset(new_timeout_ms)\<close> is the exception: it still stores the
  new period in \<^verbatim>\<open>_timeout_ms\<close>, and changes nothing else. The destruction hook is
  executed once: it has been called once if the task is no longer running and not yet
  otherwise; a destroyed task that is still running has a callback in flight, whose
  reconciliation calls the hook, the one call, and clears \<^verbatim>\<open>_running\<close>; and after any
  transition the count is again one if the task is not running and zero if it is, so
  the hook is never called twice. (The claim as stated has
  \<^verbatim>\<open>reset(new_timeout_ms)\<close> leave the task unchanged; the counterexample is the
  destroyed task whose period goes from 100 to 200.)
\<close>

theorem destroyed_is_terminal:
  assumes "reachable adj s" and "destroyed s"
  shows "start adj a b s = s\<lparr>trace := trace s @ [EvLock, EvUnlock (invoking s) (running s)]\<rparr> \<and>
         stop s = Inr (s\<lparr>trace := trace s @ [EvLock, EvUnlock (invoking s) (running s)]\<rparr>) \<and>
         reset adj a b s = Inr (s\<lparr>trace := trace s @ [EvLock, EvUnlock (invoking s) (running s)]\<rparr>) \<and>
         destroy s = Inr (s\<lparr>trace := trace s @ [EvLock, EvUnlock (invoking s) (running s)]\<rparr>) \<and>
         reset_ms adj a b ms s =
           Inr (s\<lparr>timeout_ms := ms,
                  trace := trace s @ [EvLock, EvUnlock (invoking s) (running s)]\<rparr>) \<and>
         (\<forall>a' s'. step adj a' s = Some (Inr s') \<longrightarrow>
            destroyed s' \<and> hook_calls (trace s') = (if running s' then 0 else 1)) \<and>
         hook_calls (trace s) = (if running s then 0 else 1) \<and>
         (running s \<longrightarrow> callbacks s \<noteq> []) \<and>
         (\<forall>i a' b'. i < length (callbacks s) \<and> snd (callbacks s ! i) = InRun \<longrightarrow>
            (\<exists>s'. step adj (ActEnd i a' b') s = Some (Inr s') \<and> destroyed s' \<and> \<not> running s' \<and>
               hook_calls (trace s') = Suc (hook_calls (trace s))))"
proof -
  have i: "task_inv s" using assms(1) by (rule reachable_inv)
  have 1: "destroyed s' \<and> hook_calls (trace s') = (if running s' then 0 else 1)"
    if st: "step adj a' s = Some (Inr s')" for a' s'
  proof -
    have d: "destroyed s'" using destroyed_step [OF i assms(2) st] .
    have "reachable adj s'" using reachable.after [OF assms(1) st] .
    from hook_called_once [OF this] d show ?thesis by simp
  qed
  have 2: "hook_calls (trace s) = (if running s then 0 else 1)"
    using hook_called_once [OF assms(1)] assms(2) by simp
  have 3: "running s \<longrightarrow> callbacks s \<noteq> []"
    using destroyed_running_callback [OF i assms(2)] by blast
  have 4: "\<exists>s'. step adj (ActEnd j a' b') s = Some (Inr s') \<and> destroyed s' \<and> \<not> running s' \<and>
               hook_calls (trace s') = Suc (hook_calls (trace s))"
    if "j < length (callbacks s)" "snd (callbacks s ! j) = InRun" for j a' b'
    using that destroyed_end_hook [OF i assms(2) that(1), of adj a' b'
        "take j (callbacks s) @ drop (Suc j) (callbacks s)"]
    by simp
  from destroyed_noop [OF i assms(2)] 1 2 3 4 show ?thesis by blast
qed

theorem destroyed_is_terminal_witness:
  "reachable (\<lambda>x. x) ex_destroy_pending \<and> destroyed ex_destroy_pending \<and>
   running ex_destroy_pending \<and> callbacks ex_destroy_pending = [(Background, InRun)] \<and>
   timeout_ms ex_destroy_pending = 100 \<and> hook_calls (trace ex_destroy_pending) = 0 \<and>
   stop ex_destroy_pending =
     Inr (ex_destroy_pending\<lparr>trace := trace ex_destroy_pending @ [EvLock, EvUnlock True True]\<rparr>) \<and>
   reset_ms (\<lambda>x. x) True True 200 ex_destroy_pending =
     Inr (ex_destroy_pending\<lparr>timeout_ms := 200,
            trace := trace ex_destroy_pending @ [EvLock, EvUnlock True True]\<rparr>) \<and>
   (\<exists>s'. step (\<lambda>x. x) (ActEnd 0 True True) ex_destroy_pending = Some (Inr s') \<and>
      destroyed s' \<and> \<not> running s' \<and> hook_calls (trace s') = 1)"
proof -
  have h: "destroyed ex_destroy_pending" "running ex_destroy_pending"
      "invoking ex_destroy_pending" "callbacks ex_destroy_pending = [(Background, InRun)]"
      "timeout_ms ex_destroy_pending = 100"
    by (simp_all add: ex_destroy_pending_def)
  note r = ex_destroy_pending_reachable
  note t = destroyed_is_terminal [OF r h(1), where a = True and b = True and ms = 200]
  have c: "0 < length (callbacks ex_destroy_pending)"
      "snd (callbacks ex_destroy_pending ! 0) = InRun"
    by (simp_all add: ex_destroy_pending_def)
  from t h(2) have z: "hook_calls (trace ex_destroy_pending) = 0" by simp
  from t c have "\<exists>s'. step (\<lambda>x. x) (ActEnd 0 True True) ex_destroy_pending = Some (Inr s') \<and>
      destroyed s' \<and> \<not> running s' \<and>
      hook_calls (trace s') = Suc (hook_calls (trace ex_destroy_pending))"
    by blast
  with z have e: "\<exists>s'. step (\<lambda>x. x) (ActEnd 0 True True) ex_destroy_pending = Some (Inr s') \<and>
      destroyed s' \<and> \<not> running s' \<and> hook_calls (trace s') = 1"
    by simp
  from t h have n: "stop ex_destroy_pending =
     Inr (ex_destroy_pending\<lparr>trace := trace ex_destroy_pending @ [EvLock, EvUnlock True True]\<rparr>)"
    "reset_ms (\<lambda>x. x) True True 200 ex_destroy_pending =
     Inr (ex_destroy_pending\<lparr>timeout_ms := 200,
            trace := trace ex_destroy_pending @ [EvLock, EvUnlock True True]\<rparr>)"
    by simp_all
  from r h z n e show ?thesis by blast
qed

theorem destroyed_reset_ms_counterexample:
  "reachable (\<lambda>x. x) ex_destroyed \<and> destroyed ex_destroyed \<and> timeout_ms ex_destroyed = 100 \<and>
   (\<exists>s'. reset_ms (\<lambda>x. x) True True 200 ex_destroyed = Inr s' \<and> timeout_ms s' = 200)"
  using ex_destroyed_reachable [of "\<lambda>x. x"]
  by (simp add: ex_destroyed_def reset_ms_def defs Let_def)

text \<open>
  C5. \<^verbatim>\<open>reset(new_timeout_ms)\<close> stores the new period whenever it returns, stopped or
  not. On a stopped task it does nothing else, and \<^verbatim>\<open>reset()\<close> does nothing at all
  (both only take and release the mutex). When the task is stopped, not running and
  not destroyed, a \<^verbatim>\<open>start()\<close> after \<^verbatim>\<open>reset(new_timeout_ms)\<close> calls \<^verbatim>\<open>raft_timer_add\<close>
  with the due-time "now + \<^verbatim>\<open>adjust_timeout_ms\<close>(new period)", whatever period \<^verbatim>\<open>init\<close>
  had stored, and an accepted registration carries that due-time.
\<close>

theorem reset_period_takes_effect:
  "(\<forall>s'. reset_ms adj a b ms s = Inr s' \<longrightarrow> timeout_ms s' = ms) \<and>
   (stopped s \<longrightarrow>
      reset_ms adj a b ms s =
        Inr (s\<lparr>mutex := False, timeout_ms := ms,
               trace := trace s @ [EvLock, EvUnlock (invoking s) (running s)]\<rparr>) \<and>
      reset adj a b s =
        Inr (s\<lparr>mutex := False,
               trace := trace s @ [EvLock, EvUnlock (invoking s) (running s)]\<rparr>)) \<and>
   (stopped s \<and> \<not> running s \<and> \<not> destroyed s \<longrightarrow>
      (\<exists>s1. reset_ms adj a b ms s = Inr s1 \<and>
         next_duetime (start adj a' b' s1) = milliseconds_from_now (adj ms) s \<and>
         trace (start adj a' b' s1) =
           trace s1 @ [EvLock, EvTimerAdd (clock s + adj ms) (if a' then 0 else 1),
                       EvUnlock (invoking s) True] @
           (if a' then [] else [EvBthreadStart (if b' then 0 else 1)]) \<and>
         registered (start adj a' b' s1) =
           registered s @ (if a' then [(next_id s, clock s + adj ms)] else [])))"
proof -
  have 1: "timeout_ms s' = ms" if "reset_ms adj a b ms s = Inr s'" for s'
    using that by (rule reset_ms_stores)
  have 3: "\<exists>s1. reset_ms adj a b ms s = Inr s1 \<and>
         next_duetime (start adj a' b' s1) = milliseconds_from_now (adj ms) s \<and>
         trace (start adj a' b' s1) =
           trace s1 @ [EvLock, EvTimerAdd (clock s + adj ms) (if a' then 0 else 1),
                       EvUnlock (invoking s) True] @
           (if a' then [] else [EvBthreadStart (if b' then 0 else 1)]) \<and>
         registered (start adj a' b' s1) =
           registered s @ (if a' then [(next_id s, clock s + adj ms)] else [])"
    if h: "stopped s" "\<not> running s" "\<not> destroyed s"
  proof -
    show ?thesis
      unfolding reset_stopped(1) [OF h(1)]
      by (cases a') (simp_all add: start_idle milliseconds_from_now_def h)
  qed
  from 1 reset_stopped 3 show ?thesis by blast
qed

theorem reset_period_takes_effect_witness:
  "stopped ex_idle \<and> \<not> running ex_idle \<and> \<not> destroyed ex_idle \<and> timeout_ms ex_idle = 100 \<and>
   (\<exists>s1. reset_ms (\<lambda>x. x + 7) True True 250 ex_idle = Inr s1 \<and> timeout_ms s1 = 250 \<and>
      next_duetime (start (\<lambda>x. x + 7) True True s1) = 257 \<and>
      registered (start (\<lambda>x. x + 7) True True s1) = [(1, 257)])"
proof -
  have h: "stopped ex_idle" "\<not> running ex_idle" "\<not> destroyed ex_idle" "timeout_ms ex_idle = 100"
     "clock ex_idle = 0" "registered ex_idle = []" "next_id ex_idle = 1"
    by (simp_all add: ex_idle_def ex_defs)
  from reset_period_takes_effect [of "\<lambda>x. x + 7" True True 250 ex_idle True True] h
  show ?thesis by (auto simp add: milliseconds_from_now_def)
qed




text \<open>
  C9. \<^verbatim>\<open>init(timeout_ms)\<close>, whose precondition is that the task is not in use, leaves
  the task in the fresh idle state: \<^verbatim>\<open>_stopped\<close> set, \<^verbatim>\<open>_running\<close> and \<^verbatim>\<open>_destroyed\<close>
  clear, the period stored, the timer handle at its zero value, and \<^verbatim>\<open>_invoking\<close>
  clear. The first three flags are assigned by \<^verbatim>\<open>init\<close>; \<^verbatim>\<open>_invoking\<close> is not written
  by it and is clear because it already was: on a freshly constructed task, and on
  every reachable task with no call of \<^verbatim>\<open>on_timedout()\<close> in progress. \<^verbatim>\<open>init\<close> takes no
  mutex and changes nothing outside the object: no registration, no callback, no
  event.
\<close>

theorem init_resets_to_idle:
  "stopped (init ms s) \<and> \<not> running (init ms s) \<and> \<not> destroyed (init ms s) \<and>
   timeout_ms (init ms s) = ms \<and> timer (init ms s) = raft_timer_t \<and>
   invoking (init ms s) = invoking s \<and> next_duetime (init ms s) = next_duetime s \<and>
   mutex (init ms s) = mutex s \<and>
   registered (init ms s) = registered s \<and> callbacks (init ms s) = callbacks s \<and>
   next_id (init ms s) = next_id s \<and> clock (init ms s) = clock s \<and>
   trace (init ms s) = trace s \<and>
   \<not> invoking (init ms (RepeatedTimerTask_new d0 t0)) \<and>
   (reachable adj s \<and> callbacks s = [] \<longrightarrow> \<not> invoking (init ms s))"
proof -
  have "\<not> invoking (init ms s)" if "reachable adj s" "callbacks s = []"
    using idle_not_invoking [OF reachable_inv [OF that(1)] that(2)] by (simp add: init_def)
  then show ?thesis
    by (simp add: init_def RepeatedTimerTask_new_def)
qed

theorem init_resets_to_idle_witness:
  "reachable (\<lambda>x. x) ex_destroyed \<and> callbacks ex_destroyed = [] \<and> destroyed ex_destroyed \<and>
   timeout_ms ex_destroyed = 100 \<and>
   stopped (init 50 ex_destroyed) \<and> \<not> running (init 50 ex_destroyed) \<and>
   \<not> destroyed (init 50 ex_destroyed) \<and> \<not> invoking (init 50 ex_destroyed) \<and>
   timeout_ms (init 50 ex_destroyed) = 50 \<and> trace (init 50 ex_destroyed) = trace ex_destroyed"
proof -
  have h: "callbacks ex_destroyed = []" "destroyed ex_destroyed" "timeout_ms ex_destroyed = 100"
    by (simp_all add: ex_destroyed_def)
  note r = ex_destroyed_reachable [of "\<lambda>x. x"]
  from init_resets_to_idle [of 50 ex_destroyed 0 0 "\<lambda>x. x"] h r show ?thesis by blast
qed

text \<open>
  C2, where the code departs from the claim. The task is in \<^verbatim>\<open>run()\<close>; \<^verbatim>\<open>destroy()\<close>
  is called, its cancellation fails, and the hook is left to the callback. When
  \<^verbatim>\<open>run()\<close> returns, the reconciliation calls \<^verbatim>\<open>on_destroy()\<close> (line 58) before it
  clears \<^verbatim>\<open>_running\<close> (line 60) and with the mutex held: the hook finds \<^verbatim>\<open>_running\<close>
  still true. The hook is called once, and the task ends destroyed and not running.
  On the task as the hook finds it (after lines 53-54), the destructor's
  \<^verbatim>\<open>CHECK(!_running)\<close> would fail.
\<close>

theorem deferred_hook_finds_task_running:
  "reachable (\<lambda>x. x) ex_in_run \<and>
   (\<exists>s. exec (\<lambda>x. x) [ActDestroy, ActEnd 0 True True] ex_in_run = Some (Inr s) \<and>
      trace s = trace ex_in_run @
        [EvLock, EvTimerDel 1 1, EvUnlock True True, EvLock, EvOnDestroy True, EvUnlock False False] \<and>
      held_after False (trace ex_in_run @ [EvLock, EvTimerDel 1 1, EvUnlock True True, EvLock]) \<and>
      destroyed s \<and> \<not> running s \<and> hook_calls (trace s) = 1) \<and>
   (\<exists>s1. destroy ex_in_run = Inr s1 \<and>
      RepeatedTimerTask_delete ((lock s1)\<lparr>invoking := False\<rparr>) = Some CHECK_not_running)"
  using ex_in_run_reachable
  by (simp add: ex_in_run_def destroy_def on_timedout_end_def RepeatedTimerTask_delete_def
      defs Let_def)

text \<open>
  C8, as amended. \<^verbatim>\<open>describe\<close> reads the four flags, the due-time and the period
  with the mutex held and releases the mutex before it writes anything; it changes no
  member. It then writes the period, followed by every status tag that applies, in this
  order: DESTROYED when destroyed; STOPPED when stopped; and, when running, INVOKING if
  the user action is executing and otherwise "SCHEDULING(in Nms)", N being the
  snapshotted due-time minus the current time in milliseconds. This holds for every
  snapshot of the flags. (The claim as stated has exactly one tag for every snapshot;
  the counterexamples are a destroyed task, which shows DESTROYED and STOPPED, and a
  task stopped during its \<^verbatim>\<open>run()\<close>, which shows STOPPED and INVOKING.)
\<close>

theorem describe_emits_every_applicable_tag:
  "trace (describe s) =
     trace s @ [EvLock, EvUnlock (invoking s) (running s)] @
     map EvWrite
       ([''timeout('', show_int (timeout_ms s), ''ms)''] @
        (if destroyed s then ['' DESTROYED''] else []) @
        (if stopped s then ['' STOPPED''] else []) @
        (if running s
         then (if invoking s then ['' INVOKING'']
               else ['' SCHEDULING(in '', show_int (next_duetime s - clock s), ''ms)''])
         else [])) \<and>
   written (trace (describe s)) =
     written (trace s) @ ''timeout('' @ show_int (timeout_ms s) @ ''ms)'' @
     (if destroyed s then '' DESTROYED'' else []) @
     (if stopped s then '' STOPPED'' else []) @
     (if running s
      then (if invoking s then '' INVOKING''
            else '' SCHEDULING(in '' @ show_int (next_duetime s - clock s) @ ''ms)'')
      else []) \<and>
   (describe s)\<lparr>trace := trace s\<rparr> = s\<lparr>mutex := False\<rparr>"
  by (simp add: describe_def os_write_def emit_def lock_def unlock_def Let_def
      timespec_to_milliseconds_def gettimeofday_ms_def)

theorem describe_emits_every_applicable_tag_witness:
  "reachable (\<lambda>x. x) ex_armed \<and>
   written (trace (describe ex_armed)) = ''timeout(100ms) SCHEDULING(in 70ms)'' \<and>
   (describe ex_armed)\<lparr>trace := trace ex_armed\<rparr> = ex_armed"
proof -
  have s: "show_int 100 = ''100''" "show_int 70 = ''70''"
    by code_simp+
  from describe_emits_every_applicable_tag [of ex_armed] ex_armed_reachable s
  show ?thesis by (simp add: ex_armed_def)
qed

theorem describe_two_tags_counterexample:
  "reachable (\<lambda>x. x) ex_destroyed \<and>
   written (trace (describe ex_destroyed)) = ''timeout(100ms) DESTROYED STOPPED'' \<and>
   reachable (\<lambda>x. x) ex_stop_pending \<and>
   written (trace (describe ex_stop_pending)) = ''timeout(100ms) STOPPED INVOKING''"
proof -
  have "written (trace (describe ex_destroyed)) = ''timeout(100ms) DESTROYED STOPPED''"
    by code_simp
  moreover have "written (trace (describe ex_stop_pending)) = ''timeout(100ms) STOPPED INVOKING''"
    by code_simp
  ultimately show ?thesis
    using ex_destroyed_reachable [of "\<lambda>x. x"] ex_stop_pending_reachable by simp
qed

end
